theory Spec2Isabelle
  imports Complex_Main "HOL-Library.Multiset"
begin

section \<open>Vectors and the camera\<close>

text \<open>
  A \<open>glm::vec3\<close> is three floats. A coordinate is a finite float, modelled by its real
  value; the vector operations below are exact, so the camera tests and the distance are
  the code without rounding. The classification of \<open>insert\<close> and \<open>remove\<close> is modelled with
  overflow and NaN (section on the BSP tree). NaN and infinite coordinates are outside the
  model.
\<close>

datatype vec3 = Vec3 (vx: real) (vy: real) (vz: real)

definition vadd :: "vec3 \<Rightarrow> vec3 \<Rightarrow> vec3" where
  "vadd a b = Vec3 (vx a + vx b) (vy a + vy b) (vz a + vz b)"

definition vsub :: "vec3 \<Rightarrow> vec3 \<Rightarrow> vec3" where
  "vsub a b = Vec3 (vx a - vx b) (vy a - vy b) (vz a - vz b)"

definition smul :: "vec3 \<Rightarrow> real \<Rightarrow> vec3" where
  \<comment> \<open>\<open>v * s\<close>\<close>
  "smul a s = Vec3 (vx a * s) (vy a * s) (vz a * s)"

definition dot :: "vec3 \<Rightarrow> vec3 \<Rightarrow> real" where
  \<comment> \<open>\<open>glm::dot\<close>\<close>
  "dot a b = vx a * vx b + vy a * vy b + vz a * vz b"

definition cross :: "vec3 \<Rightarrow> vec3 \<Rightarrow> vec3" where
  \<comment> \<open>\<open>glm::cross\<close>\<close>
  "cross a b = Vec3 (vy a * vz b - vy b * vz a)
                    (vz a * vx b - vz b * vx a)
                    (vx a * vy b - vx b * vy a)"

definition vlength :: "vec3 \<Rightarrow> real" where
  \<comment> \<open>\<open>glm::length\<close>\<close>
  "vlength a = sqrt (dot a a)"

definition normalize :: "vec3 \<Rightarrow> vec3" where
  \<comment> \<open>\<open>glm::normalize\<close>: the vector times the inverse square root of its squared length\<close>
  "normalize a = smul a (1 / sqrt (dot a a))"

definition radians :: "real \<Rightarrow> real" where
  \<comment> \<open>\<open>glm::radians\<close>\<close>
  "radians deg = deg * (pi / 180)"

text \<open>The fields of \<open>Camera\<close> (camera.h) that the scene code reads.\<close>

record Camera =
  Position :: vec3
  Front :: vec3
  Up :: vec3
  Fov :: real

section \<open>Item: distance and level of detail (Item.cpp)\<close>

text \<open>
  An \<open>Item*\<close> is an address; \<open>nullptr\<close> is address 0. The heap gives the \<open>position\<close>
  field of the object at each address, so two distinct objects can have the same position.
\<close>

type_synonym item_ptr = nat

definition nullptr :: item_ptr where
  "nullptr = 0"

type_synonym item_heap = "item_ptr \<Rightarrow> vec3"

text \<open>The fields of \<open>MeshCreator::GLMesh\<close> used when drawing, and the OpenGL calls issued.\<close>

record GLMesh =
  vao :: nat
  nVertices :: nat
  nIndices :: nat

datatype gl_call =
    glBindVertexArray nat
  | glDrawArrays nat
  | glDrawElements nat

definition calculateDistance :: "Camera \<Rightarrow> vec3 \<Rightarrow> real" where
  "calculateDistance camera objectPosition =
     (let diff = vsub (Position camera) objectPosition in vlength diff)"

definition drawMeshBasedOnDistance ::
  "Camera \<Rightarrow> GLMesh \<Rightarrow> GLMesh \<Rightarrow> vec3 \<Rightarrow> bool \<Rightarrow> gl_call list" where
  "drawMeshBasedOnDistance camera highMesh lowMesh translationVec useDrawArrays =
     (let distance = calculateDistance camera translationVec in
      if distance < 8 then
        glBindVertexArray (vao highMesh) #
          (if useDrawArrays then [glDrawArrays (nVertices highMesh)]
           else [glDrawElements (nIndices highMesh)])
      else if distance \<le> 19 then
        glBindVertexArray (vao lowMesh) #
          (if useDrawArrays then [glDrawArrays (nVertices lowMesh)]
           else [glDrawElements (nIndices lowMesh)])
      else [])"

text \<open>What drawing one mesh looks like: bind its VAO, then one draw call.\<close>

definition draws :: "GLMesh \<Rightarrow> bool \<Rightarrow> gl_call list" where
  "draws mesh useDrawArrays =
     [glBindVertexArray (vao mesh),
      if useDrawArrays then glDrawArrays (nVertices mesh) else glDrawElements (nIndices mesh)]"

text \<open>
  The camera-to-part Euclidean distance as the specification words it, to compare
  \<open>calculateDistance\<close> with.
\<close>

definition euclidean_distance :: "vec3 \<Rightarrow> vec3 \<Rightarrow> real" where
  "euclidean_distance a b = sqrt ((vx a - vx b)\<^sup>2 + (vy a - vy b)\<^sup>2 + (vz a - vz b)\<^sup>2)"

section \<open>The BSP tree (BSPTree.h, BSPTree.cpp)\<close>

text \<open>
  A \<open>BSPTree*\<close> is either null or points to a node with a partition item and two child
  pointers (the fields \<open>front\<close> and \<open>back\<close>, here \<open>front_sub\<close> and \<open>back_sub\<close>). Every
  node is owned by exactly one parent slot, so the pointer structure is a tree and is
  modelled as a datatype; \<open>Null\<close> is the null child pointer. A method is only ever called
  on a non-null node (each recursive call in the source is guarded by \<open>if (front)\<close> /
  \<open>if (back)\<close>); the \<open>Null\<close> equations below are never reached from a node.
\<close>

datatype BSPTree = Null | Node (partitionItem: item_ptr) (front_sub: BSPTree) (back_sub: BSPTree)

definition normal :: vec3 where
  "normal = Vec3 0 0 1"

text \<open>
  \<open>insert\<close> and \<open>remove\<close> compute \<open>dotProduct\<close> in float arithmetic and branch on
  \<open>dotProduct < 0\<close>. The model keeps what decides that comparison: an operation whose exact
  result is at or beyond the overflow threshold of binary32 (\<open>2^128 - 2^103\<close>, half an ulp
  above the largest float) gives an infinity, infinity times zero and opposite infinities
  added give NaN, NaN propagates, and a comparison with NaN is false. Rounding of a result
  in range is not modelled; it does not change the sign of a difference of two floats.
\<close>

datatype float32 = Finite real | PosInf | NegInf | NaN

definition overflow_threshold :: real where
  "overflow_threshold = 2 ^ 128 - 2 ^ 103"

definition to_float :: "real \<Rightarrow> float32" where
  \<comment> \<open>the float result of an operation whose exact result is \<open>r\<close>\<close>
  "to_float r =
     (if overflow_threshold \<le> r then PosInf
      else if r \<le> - overflow_threshold then NegInf
      else Finite r)"

fun fmul :: "float32 \<Rightarrow> float32 \<Rightarrow> float32" where
  "fmul (Finite a) (Finite b) = to_float (a * b)"
| "fmul (Finite a) PosInf = (if a = 0 then NaN else if 0 < a then PosInf else NegInf)"
| "fmul (Finite a) NegInf = (if a = 0 then NaN else if 0 < a then NegInf else PosInf)"
| "fmul PosInf (Finite b) = (if b = 0 then NaN else if 0 < b then PosInf else NegInf)"
| "fmul NegInf (Finite b) = (if b = 0 then NaN else if 0 < b then NegInf else PosInf)"
| "fmul PosInf PosInf = PosInf"
| "fmul PosInf NegInf = NegInf"
| "fmul NegInf PosInf = NegInf"
| "fmul NegInf NegInf = PosInf"
| "fmul NaN b = NaN"
| "fmul a NaN = NaN"

fun fadd :: "float32 \<Rightarrow> float32 \<Rightarrow> float32" where
  "fadd (Finite a) (Finite b) = to_float (a + b)"
| "fadd (Finite a) PosInf = PosInf"
| "fadd (Finite a) NegInf = NegInf"
| "fadd PosInf (Finite b) = PosInf"
| "fadd NegInf (Finite b) = NegInf"
| "fadd PosInf PosInf = PosInf"
| "fadd PosInf NegInf = NaN"
| "fadd NegInf PosInf = NaN"
| "fadd NegInf NegInf = NegInf"
| "fadd NaN b = NaN"
| "fadd a NaN = NaN"

fun flt0 :: "float32 \<Rightarrow> bool" where
  \<comment> \<open>\<open>x < 0\<close>\<close>
  "flt0 (Finite a) = (a < 0)"
| "flt0 PosInf = False"
| "flt0 NegInf = True"
| "flt0 NaN = False"

definition dotProduct :: "item_heap \<Rightarrow> item_ptr \<Rightarrow> item_ptr \<Rightarrow> float32" where
  \<comment> \<open>the first two statements of \<open>insert\<close> and of \<open>remove\<close>\<close>
  "dotProduct h item p =
     (let relativePosition_x = to_float (vx (h item) - vx (h p));
          relativePosition_y = to_float (vy (h item) - vy (h p));
          relativePosition_z = to_float (vz (h item) - vz (h p))
      in fadd (fadd (fmul relativePosition_x (Finite (vx normal)))
                    (fmul relativePosition_y (Finite (vy normal))))
              (fmul relativePosition_z (Finite (vz normal))))"

fun insert_bsp :: "item_heap \<Rightarrow> item_ptr \<Rightarrow> BSPTree \<Rightarrow> BSPTree" where
  "insert_bsp h item Null = Null"
| "insert_bsp h item (Node p f b) =
     (if flt0 (dotProduct h item p) then
        (if b \<noteq> Null then Node p f (insert_bsp h item b)
         else Node p f (Node item Null Null))
      else
        (if f \<noteq> Null then Node p (insert_bsp h item f) b
         else Node p (Node item Null Null) b))"

text \<open>
  \<open>mergeSubtrees\<close>: the loop walks the front chain of \<open>front\<close> to its last node and stores
  \<open>back\<close> in that node's empty front slot.
\<close>

fun attach_rightmost :: "BSPTree \<Rightarrow> BSPTree \<Rightarrow> BSPTree" where
  "attach_rightmost Null bk = Null"
| "attach_rightmost (Node p f b) bk =
     (if f \<noteq> Null then Node p (attach_rightmost f bk) b else Node p bk b)"

definition mergeSubtrees :: "BSPTree \<Rightarrow> BSPTree \<Rightarrow> BSPTree" where
  "mergeSubtrees fr bk =
     (if fr = Null then bk
      else if bk = Null then fr
      else attach_rightmost fr bk)"

text \<open>
  The destructor \<open>~BSPTree\<close> deletes the partition item of each non-null child and then the
  child (which runs the child's destructor). \<open>destroy t\<close> is the sequence of item addresses
  that \<open>delete t\<close> passes to \<open>delete\<close>.
\<close>

fun destroy :: "BSPTree \<Rightarrow> item_ptr list" where
  "destroy Null = []"
| "destroy (Node p f b) =
     (if f \<noteq> Null then partitionItem f # destroy f else []) @
     (if b \<noteq> Null then partitionItem b # destroy b else [])"

text \<open>
  \<open>remove\<close>, when it finds the item in a child slot, keeps the old child in \<open>temp\<close>, stores
  \<open>mergeSubtrees(temp->front, temp->back)\<close> in the slot, deletes \<open>temp->partitionItem\<close> and
  then \<open>temp\<close>. \<open>mergeSubtrees\<close> does not clear the fields of \<open>temp\<close>: \<open>temp->back\<close> is
  unchanged, and \<open>temp->front\<close>, when not null, is the head of the chain that
  \<open>mergeSubtrees\<close> returns (updated in place). \<open>temp_view\<close> is the node as its destructor
  sees it.
\<close>

definition temp_view :: "BSPTree \<Rightarrow> BSPTree" where
  "temp_view t =
     (case t of
        Null \<Rightarrow> Null
      | Node p f b \<Rightarrow> Node p (if f \<noteq> Null then mergeSubtrees f b else Null) b)"

text \<open>
  What a call of \<open>remove\<close> leaves behind.
  \<^item> \<open>Removed t ds\<close>: the call returns, \<open>t\<close> is the structure below the node it was called on,
    all of its nodes alive, and \<open>ds\<close> are the objects deleted (none, or the item).
  \<^item> \<open>Dangling ds\<close>: the call returns after deleting the objects \<open>ds\<close>, but the removed node
    had one child: \<open>delete temp\<close> has run the destructor on that child, so the slot that
    received the merged subtree points to freed nodes, whose objects are deleted too.
  \<^item> \<open>DoubleDelete ds item\<close>: the removed node had both children. The destructor of
    \<open>temp\<close> frees the front chain, which now ends in the back child, and then reads
    \<open>back->partitionItem\<close> from the freed back child and deletes \<open>item\<close> a second time:
    undefined behaviour inside \<open>remove\<close>, after the deletions \<open>ds\<close>.
\<close>

datatype remove_outcome =
    Removed (tree_of: BSPTree) (deleted: "item_ptr list")
  | Dangling "item_ptr list"
  | DoubleDelete "item_ptr list" item_ptr

definition delete_temp :: "BSPTree \<Rightarrow> BSPTree \<Rightarrow> remove_outcome" where
  \<comment> \<open>\<open>delete temp->partitionItem; delete temp;\<close> with the slot of \<open>parent\<close> already updated\<close>
  "delete_temp temp parent =
     (if front_sub temp \<noteq> Null \<and> back_sub temp \<noteq> Null then
        DoubleDelete
          (partitionItem temp # partitionItem (front_sub temp)
             # destroy (mergeSubtrees (front_sub temp) (back_sub temp)))
          (partitionItem (back_sub temp))
      else if front_sub temp \<noteq> Null \<or> back_sub temp \<noteq> Null then
        Dangling (partitionItem temp # destroy (temp_view temp))
      else Removed parent [partitionItem temp])"

definition in_slot :: "(BSPTree \<Rightarrow> BSPTree) \<Rightarrow> remove_outcome \<Rightarrow> remove_outcome" where
  \<comment> \<open>the outcome of the recursive call on a child, seen from the parent\<close>
  "in_slot parent r =
     (case r of
        Removed t ds \<Rightarrow> Removed (parent t) ds
      | Dangling ds \<Rightarrow> Dangling ds
      | DoubleDelete ds item \<Rightarrow> DoubleDelete ds item)"

fun remove_bsp :: "item_heap \<Rightarrow> item_ptr \<Rightarrow> BSPTree \<Rightarrow> remove_outcome" where
  "remove_bsp h item Null = Removed Null []"
| "remove_bsp h item (Node p f b) =
     (if flt0 (dotProduct h item p) then
        (if b \<noteq> Null then
           (if partitionItem b = item then
              delete_temp b (Node p f (mergeSubtrees (front_sub b) (back_sub b)))
            else in_slot (\<lambda>b'. Node p f b') (remove_bsp h item b))
         else Removed (Node p f b) [])
      else
        (if f \<noteq> Null then
           (if partitionItem f = item then
              delete_temp f (Node p (mergeSubtrees (front_sub f) (back_sub f)) b)
            else in_slot (\<lambda>f'. Node p f' b) (remove_bsp h item f))
         else Removed (Node p f b) []))"

text \<open>
  \<open>isPointInFrustum\<close>: six reference points, and the loop that returns false at the first
  one whose dot product with the point (both relative to the camera) is negative.
\<close>

fun planes_loop :: "vec3 \<Rightarrow> Camera \<Rightarrow> vec3 list \<Rightarrow> bool" where
  "planes_loop point camera [] = True"
| "planes_loop point camera (pl # planes) =
     (if dot (vsub point (Position camera)) (vsub pl (Position camera)) < 0 then False
      else planes_loop point camera planes)"

definition isPointInFrustum :: "vec3 \<Rightarrow> Camera \<Rightarrow> bool" where
  "isPointInFrustum point camera =
     (let right = normalize (cross (Front camera) (Up camera));
          up = normalize (cross right (Front camera));
          nearPlane = 1 / 10;
          farPlane = 100;
          aspectRatio = 16 / 9;
          halfVSide = nearPlane * tan (radians (Fov camera) / 2);
          halfHSide = halfVSide * aspectRatio;
          nearCenter = vadd (Position camera) (smul (Front camera) nearPlane);
          farCenter = vadd (Position camera) (smul (Front camera) farPlane);
          planes = [vadd nearCenter (smul up halfVSide),
                    vsub nearCenter (smul up halfVSide),
                    vadd nearCenter (smul right halfHSide),
                    vsub nearCenter (smul right halfHSide),
                    nearCenter,
                    farCenter]
      in planes_loop point camera planes)"

text \<open>
  \<open>getAllFrontItems\<close> appends to the vector \<open>result\<close> it is given by reference; the model
  takes the vector and returns it updated.
\<close>

fun getAllFrontItems ::
  "item_heap \<Rightarrow> Camera \<Rightarrow> bool \<Rightarrow> BSPTree \<Rightarrow> item_ptr list \<Rightarrow> item_ptr list" where
  "getAllFrontItems h camera checkFrustum Null result = result"
| "getAllFrontItems h camera checkFrustum (Node p f b) result =
     (if p = nullptr then result
      else
        let toItem = vsub (h p) (Position camera);
            isInFront = (dot toItem (Front camera) > 0);
            isInFrustum = (\<not> checkFrustum \<or> isPointInFrustum (h p) camera)
        in
          if isInFront \<and> isInFrustum then
            (let result1 = (if b \<noteq> Null then getAllFrontItems h camera checkFrustum b result
                            else result);
                 result2 = result1 @ [p]
             in if f \<noteq> Null then getAllFrontItems h camera checkFrustum f result2
                else result2)
          else
            (if f \<noteq> Null then getAllFrontItems h camera checkFrustum f result
             else result))"

definition getCurrentFrontItems ::
  "item_heap \<Rightarrow> Camera \<Rightarrow> bool \<Rightarrow> BSPTree \<Rightarrow> item_ptr list \<Rightarrow> item_ptr list" where
  \<comment> \<open>the last argument is the member vector \<open>result\<close> left by the previous call\<close>
  "getCurrentFrontItems h camera checkFrustum t result =
     (let result = [] in getAllFrontItems h camera checkFrustum t result)"

text \<open>The constructor \<open>BSPTree(Item* partitionItem)\<close>: a node with both children null.\<close>

definition new_BSPTree :: "item_ptr \<Rightarrow> BSPTree" where
  "new_BSPTree item = Node item Null Null"

text \<open>
  The partition items of all nodes reachable through child pointers, and all the nodes.
\<close>

fun allItems :: "BSPTree \<Rightarrow> item_ptr list" where
  "allItems Null = []"
| "allItems (Node p f b) = p # allItems f @ allItems b"

fun subtrees :: "BSPTree \<Rightarrow> BSPTree list" where
  "subtrees Null = []"
| "subtrees (Node p f b) = Node p f b # subtrees f @ subtrees b"

text \<open>
  Whether the descent of \<open>remove\<close> reaches a child slot whose node has \<open>item\<close> itself as
  partition item (the comparison \<open>back->partitionItem == item\<close> is on addresses).
\<close>

fun found :: "item_heap \<Rightarrow> item_ptr \<Rightarrow> BSPTree \<Rightarrow> bool" where
  "found h item Null = False"
| "found h item (Node p f b) =
     (if flt0 (dotProduct h item p) then
        (if b \<noteq> Null then (if partitionItem b = item then True else found h item b)
         else False)
      else
        (if f \<noteq> Null then (if partitionItem f = item then True else found h item f)
         else False))"

text \<open>A sequence of \<open>insert\<close> calls, and a sequence of \<open>remove\<close> calls, on one tree.\<close>

fun insert_all :: "item_heap \<Rightarrow> item_ptr list \<Rightarrow> BSPTree \<Rightarrow> BSPTree" where
  "insert_all h [] t = t"
| "insert_all h (item # items) t = insert_all h items (insert_bsp h item t)"

text \<open>
  A sequence of \<open>remove\<close> calls is followed as long as the calls leave the tree intact; it
  ends with the first call that does not.
\<close>

definition after_removal :: "item_ptr list \<Rightarrow> remove_outcome \<Rightarrow> remove_outcome" where
  \<comment> \<open>the outcome of the rest of a sequence, after the deletions \<open>ds\<close> of an earlier call\<close>
  "after_removal ds r =
     (case r of
        Removed t ds' \<Rightarrow> Removed t (ds @ ds')
      | Dangling ds' \<Rightarrow> Dangling (ds @ ds')
      | DoubleDelete ds' item \<Rightarrow> DoubleDelete (ds @ ds') item)"

fun remove_all :: "item_heap \<Rightarrow> item_ptr list \<Rightarrow> BSPTree \<Rightarrow> remove_outcome" where
  "remove_all h [] t = Removed t []"
| "remove_all h (item # items) t =
     (case remove_bsp h item t of
        Removed t' ds \<Rightarrow> after_removal ds (remove_all h items t')
      | Dangling ds \<Rightarrow> Dangling ds
      | DoubleDelete ds i \<Rightarrow> DoubleDelete ds i)"

text \<open>
  The classification as a predicate on a tree: at every node, \<open>dotProduct < 0\<close> against the
  node's partition item is false for the items below the front child and true for the
  items below the back child.
\<close>

fun bsp_ok :: "item_heap \<Rightarrow> BSPTree \<Rightarrow> bool" where
  "bsp_ok h Null = True"
| "bsp_ok h (Node p f b) =
     ((\<forall>obj \<in> set (allItems f). \<not> flt0 (dotProduct h obj p))
      \<and> (\<forall>obj \<in> set (allItems b). flt0 (dotProduct h obj p))
      \<and> bsp_ok h f \<and> bsp_ok h b)"

text \<open>
  A sequence of \<open>remove\<close> calls in which every item is, when its turn comes, the partition
  item of a node without children.
\<close>

fun leaf_removals :: "item_heap \<Rightarrow> item_ptr list \<Rightarrow> BSPTree \<Rightarrow> bool" where
  "leaf_removals h [] t = True"
| "leaf_removals h (item # items) t =
     (Node item Null Null \<in> set (subtrees t)
      \<and> (case remove_bsp h item t of
            Removed t' ds \<Rightarrow> leaf_removals h items t'
          | Dangling ds \<Rightarrow> False
          | DoubleDelete ds i \<Rightarrow> False))"

section \<open>The scene manager (SceneManagerBSP.cpp)\<close>

text \<open>
  \<open>renderScene\<close> is modelled by the calls it makes on items, in order. \<open>isFireFly\<close> is the
  result of the \<open>dynamic_cast<FireFly*>\<close>; \<open>walls\<close> is the address returned by
  \<open>new Walls(...)\<close>, the address of no object that is alive at the call. The render and
  move calls change positions and GPU state only after the visible list has been computed,
  so they do not change which calls are made.
\<close>

datatype scene_event = Render item_ptr | Move item_ptr | NewWalls item_ptr

fun render_items :: "(item_ptr \<Rightarrow> bool) \<Rightarrow> item_ptr list \<Rightarrow> scene_event list" where
  "render_items isFireFly [] = []"
| "render_items isFireFly (item # visibleItems) =
     Render item # (if isFireFly item then [Move item] else [])
       @ render_items isFireFly visibleItems"

definition renderScene ::
  "item_heap \<Rightarrow> Camera \<Rightarrow> (item_ptr \<Rightarrow> bool) \<Rightarrow> BSPTree \<Rightarrow> item_ptr list \<Rightarrow> item_ptr \<Rightarrow> bool
     \<Rightarrow> scene_event list" where
  "renderScene h camera isFireFly bsptree result walls checkFrustum =
     (let visibleItems = getCurrentFrontItems h camera checkFrustum bsptree result
      in render_items isFireFly visibleItems @ [NewWalls walls, Render walls])"

fun rendered :: "scene_event list \<Rightarrow> item_ptr list" where
  "rendered [] = []"
| "rendered (Render item # es) = item # rendered es"
| "rendered (Move item # es) = rendered es"
| "rendered (NewWalls item # es) = rendered es"

section \<open>A small scene used to run the definitions\<close>

text \<open>
  The root anchor (address 1) at the origin, object A (address 2) at \<open>(0,0,-5)\<close>, object B
  (address 3) at \<open>(0,0,5)\<close>, and a camera at \<open>(0,0,10)\<close> looking along \<open>(0,0,-1)\<close>.
\<close>

definition scene_heap :: item_heap where
  "scene_heap = (\<lambda>a. Vec3 0 0 0)(2 := Vec3 0 0 (-5), 3 := Vec3 0 0 5)"

definition scene_camera :: Camera where
  "scene_camera = \<lparr>Position = Vec3 0 0 10, Front = Vec3 0 0 (-1), Up = Vec3 0 1 0, Fov = 90\<rparr>"

definition scene_tree :: BSPTree where
  "scene_tree = insert_all scene_heap [2, 3] (new_BSPTree 1)"

text \<open>A camera that looks away from the root, and a heap with the root far below the view.\<close>

definition away_camera :: Camera where
  "away_camera = \<lparr>Position = Vec3 0 0 (-2), Front = Vec3 0 0 (-1), Up = Vec3 0 1 0, Fov = 90\<rparr>"

definition low_heap :: item_heap where
  "low_heap = scene_heap(1 := Vec3 0 (-20) 0)"

text \<open>A root anchor (address 1) and objects that all have the same position.\<close>

definition twin_heap :: item_heap where
  "twin_heap = (\<lambda>a. Vec3 0 0 (-5))(1 := Vec3 0 0 0)"

text \<open>
  Positions for which the node of object 2 gets object 4 as front child and object 7 as
  back child.
\<close>

definition deep_heap :: item_heap where
  "deep_heap = (\<lambda>a. Vec3 0 0 0)(2 := Vec3 0 0 (-5), 4 := Vec3 0 0 (-3), 7 := Vec3 0 0 (-7))"

text \<open>
  A root anchor (address 1) and an object (address 2) so far apart along x that the
  difference of their x coordinates overflows; both coordinates are finite floats.
\<close>

definition far_heap :: item_heap where
  "far_heap = (\<lambda>a. Vec3 0 0 0)(1 := Vec3 (- (2 ^ 127)) 0 0, 2 := Vec3 (2 ^ 127) 0 (-5))"

text \<open>A camera away from the origin, and two meshes.\<close>

definition lod_camera :: Camera where
  "lod_camera = \<lparr>Position = Vec3 1 2 3, Front = Vec3 0 0 (-1), Up = Vec3 0 1 0, Fov = 75\<rparr>"

definition high_mesh :: GLMesh where
  "high_mesh = \<lparr>vao = 1, nVertices = 360, nIndices = 720\<rparr>"

definition low_mesh :: GLMesh where
  "low_mesh = \<lparr>vao = 2, nVertices = 36, nIndices = 72\<rparr>"

section \<open>Level of detail\<close>

lemma calculateDistance_euclidean:
  "calculateDistance camera objectPosition = euclidean_distance (Position camera) objectPosition"
  by (simp add: calculateDistance_def euclidean_distance_def vlength_def vsub_def dot_def
      power2_eq_square)

lemma drawMesh_cases:
  "drawMeshBasedOnDistance camera highMesh lowMesh pos u =
     (if calculateDistance camera pos < 8 then draws highMesh u
      else if calculateDistance camera pos \<le> 19 then draws lowMesh u else [])"
  by (simp add: drawMeshBasedOnDistance_def draws_def Let_def)

lemma draws_neq: "vao m1 \<noteq> vao m2 \<Longrightarrow> draws m1 u \<noteq> draws m2 u"
  by (simp add: draws_def)

lemma draws_nonempty: "draws m u \<noteq> []"
  by (simp add: draws_def)

lemma euclidean_distance_value:
  "0 \<le> d \<Longrightarrow> (vx a - vx b)\<^sup>2 + (vy a - vy b)\<^sup>2 + (vz a - vz b)\<^sup>2 = d\<^sup>2 \<Longrightarrow>
     euclidean_distance a b = d"
  by (simp add: euclidean_distance_def)

text \<open>
  Claim C5. Let \<open>d\<close> be the Euclidean distance between the camera position and the part.
  The draw step computes \<open>d\<close>; it draws the high-detail mesh when \<open>d < 8\<close>, the low-detail mesh
  when \<open>8 \<le> d \<le> 19\<close>, and issues no call iff \<open>d > 19\<close>. The three ranges cover every distance
  and exclude each other, so each mesh is drawn in its range only; where the two meshes
  differ in their vertex array object this reads off the calls: the calls are those of the
  high-detail mesh iff \<open>d < 8\<close>, those of the low-detail mesh iff \<open>8 \<le> d \<le> 19\<close>.
\<close>

theorem lod_selection:
  "calculateDistance camera pos = euclidean_distance (Position camera) pos
   \<and> (euclidean_distance (Position camera) pos < 8 \<longrightarrow>
        drawMeshBasedOnDistance camera highMesh lowMesh pos u = draws highMesh u)
   \<and> (8 \<le> euclidean_distance (Position camera) pos
        \<and> euclidean_distance (Position camera) pos \<le> 19 \<longrightarrow>
        drawMeshBasedOnDistance camera highMesh lowMesh pos u = draws lowMesh u)
   \<and> (drawMeshBasedOnDistance camera highMesh lowMesh pos u = []
        \<longleftrightarrow> 19 < euclidean_distance (Position camera) pos)
   \<and> (vao highMesh \<noteq> vao lowMesh \<longrightarrow>
        (drawMeshBasedOnDistance camera highMesh lowMesh pos u = draws highMesh u
           \<longleftrightarrow> euclidean_distance (Position camera) pos < 8)
        \<and> (drawMeshBasedOnDistance camera highMesh lowMesh pos u = draws lowMesh u
           \<longleftrightarrow> 8 \<le> euclidean_distance (Position camera) pos
               \<and> euclidean_distance (Position camera) pos \<le> 19))"
  using draws_neq[of highMesh lowMesh u] draws_neq[of lowMesh highMesh u]
    draws_nonempty[of highMesh u] draws_nonempty[of lowMesh u]
  by (auto simp: drawMesh_cases calculateDistance_euclidean)

text \<open>
  The boundary values of the claim, for a camera at \<open>(1,2,3)\<close> and parts off the axes: high
  detail at distance 7.999, low detail at 8 and at 19, nothing at 19.001; and a call that
  passes one mesh for both levels of detail.
\<close>

theorem lod_selection_witness:
  "vao high_mesh \<noteq> vao low_mesh
   \<and> euclidean_distance (Position lod_camera)
        (Vec3 (1 + 7999 / 1500) (2 - 7999 / 3000) (3 + 7999 / 1500)) = 7999 / 1000
   \<and> drawMeshBasedOnDistance lod_camera high_mesh low_mesh
        (Vec3 (1 + 7999 / 1500) (2 - 7999 / 3000) (3 + 7999 / 1500)) False
       = draws high_mesh False
   \<and> euclidean_distance (Position lod_camera) (Vec3 (1 - 16 / 3) (2 + 8 / 3) (3 - 16 / 3)) = 8
   \<and> drawMeshBasedOnDistance lod_camera high_mesh low_mesh
        (Vec3 (1 - 16 / 3) (2 + 8 / 3) (3 - 16 / 3)) False
       = draws low_mesh False
   \<and> euclidean_distance (Position lod_camera) (Vec3 1 (2 - 57 / 5) (3 + 76 / 5)) = 19
   \<and> drawMeshBasedOnDistance lod_camera high_mesh low_mesh
        (Vec3 1 (2 - 57 / 5) (3 + 76 / 5)) True
       = draws low_mesh True
   \<and> euclidean_distance (Position lod_camera)
        (Vec3 (1 + 19001 / 1250) 2 (3 - 57003 / 5000)) = 19001 / 1000
   \<and> drawMeshBasedOnDistance lod_camera high_mesh low_mesh
        (Vec3 (1 + 19001 / 1250) 2 (3 - 57003 / 5000)) False
       = []
   \<and> drawMeshBasedOnDistance lod_camera high_mesh high_mesh
        (Vec3 1 (2 - 57 / 5) (3 + 76 / 5)) False
       = draws high_mesh False"
proof -
  let ?p1 = "Vec3 (1 + 7999 / 1500) (2 - 7999 / 3000) (3 + 7999 / 1500)"
  let ?p2 = "Vec3 (1 - 16 / 3) (2 + 8 / 3) (3 - 16 / 3)"
  let ?p3 = "Vec3 1 (2 - 57 / 5) (3 + 76 / 5)"
  let ?p4 = "Vec3 (1 + 19001 / 1250) 2 (3 - 57003 / 5000)"
  have v: "vao high_mesh \<noteq> vao low_mesh"
    by (simp add: high_mesh_def low_mesh_def)
  have d1: "euclidean_distance (Position lod_camera) ?p1 = 7999 / 1000"
    by (rule euclidean_distance_value) (simp_all add: lod_camera_def power2_eq_square)
  have d2: "euclidean_distance (Position lod_camera) ?p2 = 8"
    by (rule euclidean_distance_value) (simp_all add: lod_camera_def power2_eq_square)
  have d3: "euclidean_distance (Position lod_camera) ?p3 = 19"
    by (rule euclidean_distance_value) (simp_all add: lod_camera_def power2_eq_square)
  have d4: "euclidean_distance (Position lod_camera) ?p4 = 19001 / 1000"
    by (rule euclidean_distance_value) (simp_all add: lod_camera_def power2_eq_square)
  have r1: "drawMeshBasedOnDistance lod_camera high_mesh low_mesh ?p1 False
              = draws high_mesh False"
    using lod_selection[of lod_camera ?p1 high_mesh low_mesh False] d1 by simp
  have r2: "drawMeshBasedOnDistance lod_camera high_mesh low_mesh ?p2 False
              = draws low_mesh False"
    using lod_selection[of lod_camera ?p2 high_mesh low_mesh False] d2 by simp
  have r3: "drawMeshBasedOnDistance lod_camera high_mesh low_mesh ?p3 True
              = draws low_mesh True"
    using lod_selection[of lod_camera ?p3 high_mesh low_mesh True] d3 by simp
  have r4: "drawMeshBasedOnDistance lod_camera high_mesh low_mesh ?p4 False = []"
    using lod_selection[of lod_camera ?p4 high_mesh low_mesh False] d4 by simp
  have r5: "drawMeshBasedOnDistance lod_camera high_mesh high_mesh ?p3 False
              = draws high_mesh False"
    using lod_selection[of lod_camera ?p3 high_mesh high_mesh False] d3 by simp
  show ?thesis by (intro conjI v d1 r1 d2 r2 d3 r3 d4 r4 r5)
qed

section \<open>Evaluating the small scene\<close>

lemma tan_radians_45: "tan (radians 90 / 2) = 1"
proof -
  have e: "radians 90 / 2 = pi / 4" by (simp add: radians_def)
  show ?thesis unfolding e by (rule tan_45)
qed

lemma scene_tree_eq: "scene_tree = Node 1 (Node 3 Null Null) (Node 2 Null Null)"
  by (simp add: scene_tree_def scene_heap_def new_BSPTree_def dotProduct_def normal_def
      to_float_def overflow_threshold_def)

lemma frustum_facing_minus_z:
  "isPointInFrustum (Vec3 a b c)
     \<lparr>Position = Vec3 px py pz, Front = Vec3 0 0 (-1), Up = Vec3 0 1 0, Fov = 90\<rparr>
     = (0 \<le> (b - py) / 10 - (c - pz) / 10 \<and> 0 \<le> - (b - py) / 10 - (c - pz) / 10
        \<and> 0 \<le> (a - px) * 16 / 90 - (c - pz) / 10 \<and> 0 \<le> - (a - px) * 16 / 90 - (c - pz) / 10
        \<and> 0 \<le> - (c - pz))"
  apply (simp add: isPointInFrustum_def Let_def cross_def normalize_def smul_def dot_def
      vadd_def vsub_def tan_radians_45 not_less)
  apply (auto simp: field_simps)
  done

lemma scene_not_null: "(1::nat) \<noteq> nullptr" "(2::nat) \<noteq> nullptr" "(3::nat) \<noteq> nullptr"
  by (simp_all add: nullptr_def)

section \<open>The traversal\<close>

lemma gafi_guard:
  "(if t \<noteq> Null then getAllFrontItems h c k t r else r) = getAllFrontItems h c k t r"
  by (cases t) simp_all

lemma gafi_Node:
  "getAllFrontItems h c k (Node p f b) r =
     (if p = nullptr then r
      else if dot (vsub (h p) (Position c)) (Front c) > 0 \<and> (\<not> k \<or> isPointInFrustum (h p) c)
           then getAllFrontItems h c k f (getAllFrontItems h c k b r @ [p])
           else getAllFrontItems h c k f r)"
  by (auto simp add: Let_def gafi_guard)

text \<open>The traversal only appends to the vector it is given.\<close>

lemma gafi_append:
  "getAllFrontItems h c k t acc = acc @ getAllFrontItems h c k t []"
proof (induction t arbitrary: acc)
  case Null
  show ?case by simp
next
  case (Node p f b)
  note Ib = Node.IH(2) and If = Node.IH(1)
  show ?case
  proof (cases "p \<noteq> nullptr \<and> dot (vsub (h p) (Position c)) (Front c) > 0
                 \<and> (\<not> k \<or> isPointInFrustum (h p) c)")
    case True
    have "getAllFrontItems h c k (Node p f b) acc =
            getAllFrontItems h c k f (getAllFrontItems h c k b acc @ [p])"
      using True by (simp only: gafi_Node if_True if_False simp_thms)
    also have "\<dots> = (getAllFrontItems h c k b acc @ [p]) @ getAllFrontItems h c k f []"
      by (rule If)
    also have "\<dots> = acc @ (getAllFrontItems h c k b [] @ [p]) @ getAllFrontItems h c k f []"
      by (subst Ib) simp
    also have "\<dots> = acc @ getAllFrontItems h c k f (getAllFrontItems h c k b [] @ [p])"
      by (subst (2) If) simp
    also have "\<dots> = acc @ getAllFrontItems h c k (Node p f b) []"
      using True by (simp only: gafi_Node if_True if_False simp_thms)
    finally show ?thesis .
  next
    case False
    show ?thesis
    proof (cases "p = nullptr")
      case True then show ?thesis by simp
    next
      case pn: False
      have "getAllFrontItems h c k (Node p f b) acc = getAllFrontItems h c k f acc" for acc
        using False pn by (simp only: gafi_Node if_True if_False simp_thms)
      then show ?thesis using If by metis
    qed
  qed
qed

text \<open>
  Claim C3. At a node whose anchor is strictly in front of the camera and passes the
  frustum check (or the filter is off), the traversal appends, in this order, what the back
  subtree emits, the anchor, and what the front subtree emits.
\<close>

theorem front_branch_order:
  assumes "p \<noteq> nullptr"
    and "dot (vsub (h p) (Position camera)) (Front camera) > 0"
    and "\<not> checkFrustum \<or> isPointInFrustum (h p) camera"
  shows "getAllFrontItems h camera checkFrustum (Node p f b) result =
           result @ getAllFrontItems h camera checkFrustum b []
                  @ [p] @ getAllFrontItems h camera checkFrustum f []"
proof -
  have "getAllFrontItems h camera checkFrustum (Node p f b) result =
          getAllFrontItems h camera checkFrustum f
            (getAllFrontItems h camera checkFrustum b result @ [p])"
    using assms by (simp only: gafi_Node if_True if_False simp_thms)
  also have "\<dots> = (getAllFrontItems h camera checkFrustum b result @ [p])
                     @ getAllFrontItems h camera checkFrustum f []"
    by (rule gafi_append)
  also have "getAllFrontItems h camera checkFrustum b result =
               result @ getAllFrontItems h camera checkFrustum b []"
    by (rule gafi_append)
  finally show ?thesis by simp
qed

theorem front_branch_order_witness:
  "(1::nat) \<noteq> nullptr
   \<and> dot (vsub (scene_heap 1) (Position scene_camera)) (Front scene_camera) > 0
   \<and> getAllFrontItems scene_heap scene_camera False
        (Node 1 (Node 3 Null Null) (Node 2 Null Null)) [] = [2, 1, 3]"
proof -
  have a: "(1::nat) \<noteq> nullptr" by (simp add: nullptr_def)
  have b: "dot (vsub (scene_heap 1) (Position scene_camera)) (Front scene_camera) > 0"
    by (simp add: scene_heap_def scene_camera_def dot_def vsub_def)
  have c: "\<not> False \<or> isPointInFrustum (scene_heap 1) scene_camera" by simp
  show ?thesis
    using a b front_branch_order[where h = scene_heap and p = 1 and camera = scene_camera
        and checkFrustum = False and f = "Node 3 Null Null" and b = "Node 2 Null Null"
        and result = "[]", OF a b c]
    by (simp add: gafi_Node scene_not_null scene_heap_def scene_camera_def dot_def vsub_def)
qed

text \<open>
  Claim C4. At a node whose anchor is not in front of the camera, or fails the frustum test
  while the filter is on, the traversal appends exactly what the front subtree emits: the
  anchor is not appended and the result does not depend on the back subtree. An anchor in
  front that fails the frustum test is one of the two cases of the hypothesis.
\<close>

theorem skip_branch_front_only:
  assumes "p \<noteq> nullptr"
    and "\<not> dot (vsub (h p) (Position camera)) (Front camera) > 0
         \<or> (checkFrustum \<and> \<not> isPointInFrustum (h p) camera)"
  shows "getAllFrontItems h camera checkFrustum (Node p f b) result =
           result @ getAllFrontItems h camera checkFrustum f []
       \<and> getAllFrontItems h camera checkFrustum (Node p f b) result =
           getAllFrontItems h camera checkFrustum (Node p f b') result"
proof -
  have "getAllFrontItems h camera checkFrustum (Node p f t) result =
          getAllFrontItems h camera checkFrustum f result" for t
    using assms by (auto simp only: gafi_Node if_True if_False simp_thms)
  then show ?thesis using gafi_append[of h camera checkFrustum f result] by simp
qed

theorem skip_branch_front_only_witness:
  "(1::nat) \<noteq> nullptr
   \<and> \<not> dot (vsub (scene_heap 1) (Position away_camera)) (Front away_camera) > 0
   \<and> dot (vsub (scene_heap 2) (Position away_camera)) (Front away_camera) > 0
   \<and> getAllFrontItems scene_heap away_camera False
        (Node 1 (Node 3 Null Null) (Node 2 Null Null)) [] = []
   \<and> dot (vsub (low_heap 1) (Position scene_camera)) (Front scene_camera) > 0
   \<and> \<not> isPointInFrustum (low_heap 1) scene_camera
   \<and> getAllFrontItems low_heap scene_camera True
        (Node 1 (Node 3 Null Null) (Node 2 Null Null)) [] = [3]"
proof -
  have a: "(1::nat) \<noteq> nullptr" by (simp add: nullptr_def)
  have b: "\<not> dot (vsub (scene_heap 1) (Position away_camera)) (Front away_camera) > 0
           \<or> (False \<and> \<not> isPointInFrustum (scene_heap 1) away_camera)"
    by (simp add: scene_heap_def away_camera_def dot_def vsub_def)
  have c: "\<not> isPointInFrustum (low_heap 1) scene_camera"
    by (simp add: low_heap_def scene_camera_def frustum_facing_minus_z)
  then have d: "\<not> dot (vsub (low_heap 1) (Position scene_camera)) (Front scene_camera) > 0
           \<or> (True \<and> \<not> isPointInFrustum (low_heap 1) scene_camera)"
    by simp
  have e: "isPointInFrustum (low_heap 3) scene_camera"
    by (simp add: low_heap_def scene_heap_def scene_camera_def frustum_facing_minus_z)
  show ?thesis
    using a b c e
      skip_branch_front_only[where h = scene_heap and p = 1 and camera = away_camera
        and checkFrustum = False and f = "Node 3 Null Null" and b = "Node 2 Null Null"
        and result = "[]" and b' = Null, OF a b]
      skip_branch_front_only[where h = low_heap and p = 1 and camera = scene_camera
        and checkFrustum = True and f = "Node 3 Null Null" and b = "Node 2 Null Null"
        and result = "[]" and b' = Null, OF a d]
    by (simp add: gafi_Node scene_not_null scene_heap_def low_heap_def scene_camera_def
        away_camera_def dot_def vsub_def)
qed


section \<open>The frustum test\<close>














section \<open>The scenario of the specification\<close>

lemma frustum_on_z_axis:
  assumes "Position camera = Vec3 0 0 10" and "Front camera = Vec3 0 0 (-1)"
  shows "isPointInFrustum (Vec3 0 0 c) camera = (c \<le> 10)"
  using assms
  by (simp add: isPointInFrustum_def Let_def cross_def normalize_def smul_def dot_def
      vadd_def vsub_def not_less)

text \<open>
  Claim C2 says that the visible list of the scenario excludes B. It does not: B at
  \<open>(0,0,5)\<close> is in front of the camera at \<open>(0,0,10)\<close> that looks along \<open>(0,0,-1)\<close>, and
  is emitted with the filter off and with the filter on.
\<close>

theorem scenario_includes_B:
  "3 \<in> set (getCurrentFrontItems scene_heap scene_camera False scene_tree [])
   \<and> 3 \<in> set (getCurrentFrontItems scene_heap scene_camera True scene_tree [])"
  by (simp add: getCurrentFrontItems_def scene_tree_eq gafi_Node nullptr_def
      scene_heap_def scene_camera_def dot_def vsub_def frustum_facing_minus_z)

text \<open>
  Claim C2, amended. In the scenario, A (negative side of the root plane) is stored in the
  back slot of the root and B in the front slot; for every camera at \<open>(0,0,10)\<close> looking
  along \<open>(0,0,-1)\<close>, with the filter off or on, the visible list is A, the root anchor, B:
  back subtree, anchor, front subtree.
\<close>

theorem scenario_order:
  assumes "rootItem \<noteq> nullptr" and "A \<noteq> nullptr" and "B \<noteq> nullptr"
    and "h rootItem = Vec3 0 0 0" and "h A = Vec3 0 0 (-5)" and "h B = Vec3 0 0 5"
    and "Position camera = Vec3 0 0 10" and "Front camera = Vec3 0 0 (-1)"
  shows "insert_all h [A, B] (new_BSPTree rootItem) = Node rootItem (Node B Null Null) (Node A Null Null)
       \<and> getCurrentFrontItems h camera checkFrustum
             (insert_all h [A, B] (new_BSPTree rootItem)) result = [A, rootItem, B]"
proof -
  have t: "insert_all h [A, B] (new_BSPTree rootItem) = Node rootItem (Node B Null Null) (Node A Null Null)"
    using assms(4-6)
    by (simp add: new_BSPTree_def dotProduct_def normal_def to_float_def
        overflow_threshold_def)
  have fr: "isPointInFrustum (Vec3 0 0 c) camera = (c \<le> 10)" for c
    using assms(7,8) by (rule frustum_on_z_axis)
  show ?thesis
    unfolding t using assms
    by (simp add: getCurrentFrontItems_def gafi_Node fr dot_def vsub_def)
qed

theorem scenario_order_witness:
  "(1::nat) \<noteq> nullptr \<and> (2::nat) \<noteq> nullptr \<and> (3::nat) \<noteq> nullptr
   \<and> scene_heap 1 = Vec3 0 0 0 \<and> scene_heap 2 = Vec3 0 0 (-5) \<and> scene_heap 3 = Vec3 0 0 5
   \<and> Position scene_camera = Vec3 0 0 10 \<and> Front scene_camera = Vec3 0 0 (-1)
   \<and> getCurrentFrontItems scene_heap scene_camera True
         (insert_all scene_heap [2, 3] (new_BSPTree 1)) [] = [2, 1, 3]
   \<and> getCurrentFrontItems scene_heap scene_camera False
         (insert_all scene_heap [2, 3] (new_BSPTree 1)) [] = [2, 1, 3]"
proof -
  have n: "(1::nat) \<noteq> nullptr" "(2::nat) \<noteq> nullptr" "(3::nat) \<noteq> nullptr"
    by (simp_all add: nullptr_def)
  have p: "scene_heap 1 = Vec3 0 0 0" "scene_heap 2 = Vec3 0 0 (-5)" "scene_heap 3 = Vec3 0 0 5"
    by (simp_all add: scene_heap_def)
  have c: "Position scene_camera = Vec3 0 0 10" "Front scene_camera = Vec3 0 0 (-1)"
    by (simp_all add: scene_camera_def)
  have r1: "getCurrentFrontItems scene_heap scene_camera True
         (insert_all scene_heap [2, 3] (new_BSPTree 1)) [] = [2, 1, 3]"
    by (rule scenario_order[where h = scene_heap and camera = scene_camera
          and checkFrustum = True and result = "[]", OF n p c, THEN conjunct2])
  have r2: "getCurrentFrontItems scene_heap scene_camera False
         (insert_all scene_heap [2, 3] (new_BSPTree 1)) [] = [2, 1, 3]"
    by (rule scenario_order[where h = scene_heap and camera = scene_camera
          and checkFrustum = False and result = "[]", OF n p c, THEN conjunct2])
  show ?thesis
    by (intro conjI n p c r1 r2)
qed

section \<open>Rendering a frame\<close>

lemma gafi_subset:
  "set (getAllFrontItems h c k t r) \<subseteq> set r \<union> set (allItems t)"
proof (induction t arbitrary: r)
  case Null
  show ?case by simp
next
  case (Node p f b)
  have "set (getAllFrontItems h c k f (getAllFrontItems h c k b r @ [p]))
          \<subseteq> set (getAllFrontItems h c k b r @ [p]) \<union> set (allItems f)"
    by (rule Node.IH(1))
  moreover have "set (getAllFrontItems h c k b r) \<subseteq> set r \<union> set (allItems b)"
    by (rule Node.IH(2))
  moreover have "set (getAllFrontItems h c k f r) \<subseteq> set r \<union> set (allItems f)"
    by (rule Node.IH(1))
  ultimately show ?case
    by (auto simp add: gafi_Node)
qed

lemma rendered_append: "rendered (xs @ ys) = rendered xs @ rendered ys"
  by (induction xs rule: rendered.induct) simp_all

lemma rendered_render_items: "rendered (render_items isFireFly items) = items"
  by (induction items) (simp_all add: rendered_append)

text \<open>
  Claim C10. Whatever the camera and the frustum toggle, \<open>renderScene\<close> renders the queried
  visible list in order and then one Walls object that it has just constructed; that object
  is not in the partition, hence not in the visible list.
\<close>

theorem walls_rendered_every_frame:
  assumes "walls \<notin> set (allItems bsptree)"
  shows "rendered (renderScene h camera isFireFly bsptree result walls checkFrustum)
           = getCurrentFrontItems h camera checkFrustum bsptree result @ [walls]
       \<and> walls \<notin> set (getCurrentFrontItems h camera checkFrustum bsptree result)
       \<and> NewWalls walls \<in> set (renderScene h camera isFireFly bsptree result walls checkFrustum)"
proof -
  have "set (getCurrentFrontItems h camera checkFrustum bsptree result) \<subseteq> set (allItems bsptree)"
    using gafi_subset[of h camera checkFrustum bsptree "[]"]
    by (simp add: getCurrentFrontItems_def)
  then show ?thesis
    using assms by (auto simp add: renderScene_def Let_def rendered_append rendered_render_items)
qed

theorem walls_rendered_every_frame_witness:
  "4 \<notin> set (allItems scene_tree)
   \<and> rendered (renderScene scene_heap scene_camera (\<lambda>i. False) scene_tree [] 4 True) = [2, 1, 3, 4]
   \<and> rendered (renderScene scene_heap away_camera (\<lambda>i. False) scene_tree [] 4 False) = [4]"
proof -
  have a: "4 \<notin> set (allItems scene_tree)" by (simp add: scene_tree_eq)
  have b: "getCurrentFrontItems scene_heap scene_camera True scene_tree [] = [2, 1, 3]"
    by (simp add: getCurrentFrontItems_def scene_tree_eq gafi_Node nullptr_def
      scene_heap_def scene_camera_def dot_def vsub_def frustum_facing_minus_z)
  have c: "getCurrentFrontItems scene_heap away_camera False scene_tree [] = []"
    by (simp add: getCurrentFrontItems_def scene_tree_eq gafi_Node nullptr_def
      scene_heap_def away_camera_def dot_def vsub_def)
  show ?thesis
    using a b c
      walls_rendered_every_frame[OF a, of scene_heap scene_camera "\<lambda>i. False" "[]" True]
      walls_rendered_every_frame[OF a, of scene_heap away_camera "\<lambda>i. False" "[]" False]
    by simp
qed


section \<open>Insertion and the classification invariant\<close>

lemma insert_not_Null: "t \<noteq> Null \<Longrightarrow> insert_bsp h x t \<noteq> Null"
  by (cases t) simp_all

lemma partitionItem_insert: "t \<noteq> Null \<Longrightarrow> partitionItem (insert_bsp h x t) = partitionItem t"
  by (cases t) simp_all

lemma mset_allItems_insert:
  "t \<noteq> Null \<Longrightarrow> mset (allItems (insert_bsp h x t)) = add_mset x (mset (allItems t))"
  by (induction t) auto

lemma set_allItems_insert:
  "t \<noteq> Null \<Longrightarrow> set (allItems (insert_bsp h x t)) = insert x (set (allItems t))"
  using mset_allItems_insert[of t h x] by (metis set_mset_add_mset_insert set_mset_mset)

lemma bsp_ok_insert: "bsp_ok h t \<Longrightarrow> bsp_ok h (insert_bsp h x t)"
proof (induction t)
  case Null
  show ?case by simp
next
  case (Node p f b)
  show ?case
  proof (cases "flt0 (dotProduct h x p)")
    case True
    then show ?thesis using Node by (auto simp: set_allItems_insert)
  next
    case False
    then show ?thesis using Node by (auto simp: set_allItems_insert)
  qed
qed

lemma insert_all_not_Null: "t \<noteq> Null \<Longrightarrow> insert_all h xs t \<noteq> Null"
  by (induction xs arbitrary: t) (simp_all add: insert_not_Null)

lemma partitionItem_insert_all:
  "t \<noteq> Null \<Longrightarrow> partitionItem (insert_all h xs t) = partitionItem t"
  by (induction xs arbitrary: t) (simp_all add: insert_not_Null partitionItem_insert)

lemma mset_allItems_insert_all:
  "t \<noteq> Null \<Longrightarrow> mset (allItems (insert_all h xs t)) = mset xs + mset (allItems t)"
  by (induction xs arbitrary: t) (simp_all add: insert_not_Null mset_allItems_insert)

lemma bsp_ok_insert_all: "bsp_ok h t \<Longrightarrow> bsp_ok h (insert_all h xs t)"
  by (induction xs arbitrary: t) (simp_all add: bsp_ok_insert)

lemma bsp_ok_subtree:
  "bsp_ok h t \<Longrightarrow> Node p f b \<in> set (subtrees t) \<Longrightarrow>
     (\<forall>obj \<in> set (allItems f). \<not> flt0 (dotProduct h obj p))
     \<and> (\<forall>obj \<in> set (allItems b). flt0 (dotProduct h obj p))"
  by (induction t) auto

lemma subtree_items:
  "Node p f b \<in> set (subtrees t) \<Longrightarrow>
     p \<in> set (allItems t) \<and> set (allItems f) \<subseteq> set (allItems t)
     \<and> set (allItems b) \<subseteq> set (allItems t)"
  by (induction t) auto

text \<open>
  When the differences of the x and of the y coordinates do not overflow, the comparison
  \<open>dotProduct < 0\<close> is the comparison of the z coordinates.
\<close>

lemma overflow_threshold_pos: "0 < overflow_threshold"
  by (simp add: overflow_threshold_def)

lemma to_float_in_range: "\<bar>r\<bar> < overflow_threshold \<Longrightarrow> to_float r = Finite r"
  by (auto simp: to_float_def)

lemma flt0_to_float: "flt0 (to_float r) = (r < 0)"
  using overflow_threshold_pos by (auto simp: to_float_def)

lemma flt0_dotProduct_in_range:
  assumes "\<bar>vx (h a) - vx (h b)\<bar> < overflow_threshold"
    and "\<bar>vy (h a) - vy (h b)\<bar> < overflow_threshold"
  shows "flt0 (dotProduct h a b) = (vz (h a) < vz (h b))"
proof -
  have z: "to_float 0 = Finite 0" using overflow_threshold_pos by (simp add: to_float_def)
  have "dotProduct h a b = fadd (Finite 0) (fmul (to_float (vz (h a) - vz (h b))) (Finite 1))"
    using assms by (simp add: dotProduct_def normal_def to_float_in_range z)
  also have "flt0 \<dots> = (vz (h a) - vz (h b) < 0)"
    using overflow_threshold_pos
    by (cases "overflow_threshold \<le> vz (h a) - vz (h b)";
        cases "vz (h a) - vz (h b) \<le> - overflow_threshold")
       (auto simp: to_float_def)
  finally show ?thesis by simp
qed

lemma bounded_coordinates_in_range:
  "\<bar>a\<bar> < 2 ^ 126 \<Longrightarrow> \<bar>b\<bar> < 2 ^ 126 \<Longrightarrow> \<bar>a - b\<bar> < overflow_threshold"
  by (simp add: overflow_threshold_def)

text \<open>
  Claim C7 says that every object below a front child has a non-negative dot product
  against the node's anchor. With the root anchor at \<open>(-2^127, 0, 0)\<close> and an object at
  \<open>(2^127, 0, -5)\<close>, both finite floats, the difference of the x coordinates overflows,
  \<open>dotProduct\<close> is NaN, \<open>dotProduct < 0\<close> is false, and \<open>insert\<close> stores the object in the
  front slot although its z coordinate is 5 below the root's.
\<close>

theorem overflow_misfiles_object:
  "dotProduct far_heap 2 1 = NaN
   \<and> insert_all far_heap [2] (new_BSPTree 1) = Node 1 (Node 2 Null Null) Null
   \<and> 2 \<in> set (allItems (front_sub (insert_all far_heap [2] (new_BSPTree 1))))
   \<and> dot (vsub (far_heap 2) (far_heap 1)) (Vec3 0 0 1) = - 5
   \<and> \<not> 0 \<le> dot (vsub (far_heap 2) (far_heap 1)) (Vec3 0 0 1)"
  by (simp add: far_heap_def new_BSPTree_def dotProduct_def normal_def to_float_def
      overflow_threshold_def dot_def vsub_def)

text \<open>
  Claim C7, amended. In a tree built from a root by \<open>insert\<close> calls only, with the positions
  as they were at insertion, and with no overflow in the difference of the x or of the y
  coordinates of any two of the objects, every node \<open>n\<close> has: each object below its front
  child satisfies \<open>dot(o.position - n.anchor.position, (0,0,1)) \<ge> 0\<close>, and each object
  below its back child satisfies \<open>dot(o.position - n.anchor.position, (0,0,1)) < 0\<close>.
\<close>

theorem classification_after_inserts:
  assumes "\<forall>a \<in> set (rootItem # items). \<forall>b \<in> set (rootItem # items).
             \<bar>vx (h a) - vx (h b)\<bar> < overflow_threshold
             \<and> \<bar>vy (h a) - vy (h b)\<bar> < overflow_threshold"
    and "Node p f b \<in> set (subtrees (insert_all h items (new_BSPTree rootItem)))"
  shows "(\<forall>obj \<in> set (allItems f). 0 \<le> dot (vsub (h obj) (h p)) (Vec3 0 0 1))
       \<and> (\<forall>obj \<in> set (allItems b). dot (vsub (h obj) (h p)) (Vec3 0 0 1) < 0)"
proof -
  let ?T = "insert_all h items (new_BSPTree rootItem)"
  have ok: "bsp_ok h ?T"
    by (rule bsp_ok_insert_all) (simp add: new_BSPTree_def)
  have "mset (allItems ?T) = mset items + mset (allItems (new_BSPTree rootItem))"
    by (rule mset_allItems_insert_all) (simp add: new_BSPTree_def)
  then have "set_mset (mset (allItems ?T)) = set_mset (mset (rootItem # items))"
    by (simp add: new_BSPTree_def)
  then have all: "set (allItems ?T) = set (rootItem # items)"
    by (simp only: set_mset_mset)
  from subtree_items[OF assms(2)]
  have p: "p \<in> set (rootItem # items)"
    and f: "set (allItems f) \<subseteq> set (rootItem # items)"
    and b: "set (allItems b) \<subseteq> set (rootItem # items)"
    using all by auto
  have cl: "flt0 (dotProduct h obj p) = (vz (h obj) < vz (h p))"
    if "obj \<in> set (rootItem # items)" for obj
    using assms(1) that p by (intro flt0_dotProduct_in_range) blast+
  have d: "dot (vsub (h obj) (h p)) (Vec3 0 0 1) = vz (h obj) - vz (h p)" for obj
    by (simp add: dot_def vsub_def)
  from bsp_ok_subtree[OF ok assms(2)]
  have fr: "\<And>obj. obj \<in> set (allItems f) \<Longrightarrow> \<not> flt0 (dotProduct h obj p)"
    and bk: "\<And>obj. obj \<in> set (allItems b) \<Longrightarrow> flt0 (dotProduct h obj p)" by blast+
  show ?thesis
  proof (intro conjI ballI)
    fix obj assume m: "obj \<in> set (allItems f)"
    then have "obj \<in> set (rootItem # items)" using f by blast
    from cl[OF this] fr[OF m] show "0 \<le> dot (vsub (h obj) (h p)) (Vec3 0 0 1)"
      by (simp add: d)
  next
    fix obj assume m: "obj \<in> set (allItems b)"
    then have "obj \<in> set (rootItem # items)" using b by blast
    from cl[OF this] bk[OF m] show "dot (vsub (h obj) (h p)) (Vec3 0 0 1) < 0"
      by (simp add: d)
  qed
qed

theorem classification_after_inserts_witness:
  "Node 1 (Node 3 Null Null) (Node 2 Null Null)
     \<in> set (subtrees (insert_all scene_heap [2, 3] (new_BSPTree 1)))
   \<and> 0 \<le> dot (vsub (scene_heap 3) (scene_heap 1)) (Vec3 0 0 1)
   \<and> dot (vsub (scene_heap 2) (scene_heap 1)) (Vec3 0 0 1) < 0"
proof -
  have bd: "\<forall>a \<in> set [1, 2, 3 :: nat]. \<bar>vx (scene_heap a)\<bar> < 2 ^ 126 \<and> \<bar>vy (scene_heap a)\<bar> < 2 ^ 126"
    by (simp add: scene_heap_def)
  then have r: "\<forall>a \<in> set (1 # [2, 3 :: nat]). \<forall>b \<in> set (1 # [2, 3]).
             \<bar>vx (scene_heap a) - vx (scene_heap b)\<bar> < overflow_threshold
             \<and> \<bar>vy (scene_heap a) - vy (scene_heap b)\<bar> < overflow_threshold"
    using bounded_coordinates_in_range by (metis list.simps(15))
  have m: "Node 1 (Node 3 Null Null) (Node 2 Null Null)
     \<in> set (subtrees (insert_all scene_heap [2, 3] (new_BSPTree 1)))"
    by (simp add: new_BSPTree_def scene_heap_def dotProduct_def normal_def to_float_def
        overflow_threshold_def)
  from classification_after_inserts[OF r m] have
    "0 \<le> dot (vsub (scene_heap 3) (scene_heap 1)) (Vec3 0 0 1)"
    "dot (vsub (scene_heap 2) (scene_heap 1)) (Vec3 0 0 1) < 0" by simp_all
  then show ?thesis using m by simp
qed

section \<open>Removal\<close>

lemma mset_attach:
  "fr \<noteq> Null \<Longrightarrow>
     mset (allItems (attach_rightmost fr bk)) = mset (allItems fr) + mset (allItems bk)"
  by (induction fr) auto

lemma mset_merge:
  "mset (allItems (mergeSubtrees fr bk)) = mset (allItems fr) + mset (allItems bk)"
  by (cases fr; cases bk)
    (simp_all add: mergeSubtrees_def mset_attach del: attach_rightmost.simps)

lemma in_slot_Removed:
  "in_slot g r = Removed t ds \<longleftrightarrow> (\<exists>t'. r = Removed t' ds \<and> t = g t')"
  by (cases r) (auto simp: in_slot_def)

lemma delete_temp_Removed:
  "delete_temp temp parent = Removed t ds \<longleftrightarrow>
     front_sub temp = Null \<and> back_sub temp = Null \<and> t = parent \<and> ds = [partitionItem temp]"
  by (auto simp: delete_temp_def)

lemma partitionItem_in_allItems: "t \<noteq> Null \<Longrightarrow> partitionItem t \<in> set (allItems t)"
  by (cases t) simp_all

lemma found_member: "found h x t \<Longrightarrow> x \<in> set (allItems t)"
  by (induction t) (auto simp: partitionItem_in_allItems split: if_splits)

lemma subtree_item: "Node x l r \<in> set (subtrees s) \<Longrightarrow> x \<in> set (allItems s)"
  by (induction s) auto

text \<open>Without an identity match on the descent, \<open>remove\<close> changes and deletes nothing.\<close>

lemma remove_not_found: "\<not> found h x t \<Longrightarrow> remove_bsp h x t = Removed t []"
  by (induction t) (auto simp: in_slot_def split: if_splits)

lemma remove_not_resident: "x \<notin> set (allItems t) \<Longrightarrow> remove_bsp h x t = Removed t []"
  using found_member remove_not_found by blast

text \<open>
  With a match, the call leaves the tree intact only if the matched node has no children;
  then the node is gone, the object is deleted, and everything else is as before.
\<close>

lemma remove_found_intact:
  "found h x t \<Longrightarrow> remove_bsp h x t = Removed t' ds \<Longrightarrow>
     ds = [x] \<and> Node x Null Null \<in> set (subtrees t)
     \<and> add_mset x (mset (allItems t')) = mset (allItems t)"
proof (induction t arbitrary: t')
  case Null
  then show ?case by simp
next
  case (Node p f b)
  show ?case
  proof (cases "flt0 (dotProduct h x p)")
    case True
    with Node.prems(1) have bn: "b \<noteq> Null" by (auto split: if_splits)
    show ?thesis
    proof (cases "partitionItem b = x")
      case px: True
      with True bn Node.prems(2)
      have "front_sub b = Null" "back_sub b = Null" "t' = Node p f (mergeSubtrees Null Null)"
        "ds = [x]"
        by (auto simp: delete_temp_Removed)
      moreover from this bn px have "b = Node x Null Null" by (cases b) auto
      ultimately show ?thesis by (simp add: mergeSubtrees_def)
    next
      case False
      with True bn Node.prems have fb: "found h x b"
        and "in_slot (\<lambda>b'. Node p f b') (remove_bsp h x b) = Removed t' ds" by auto
      then obtain b' where r: "remove_bsp h x b = Removed b' ds" and t': "t' = Node p f b'"
        by (auto simp: in_slot_Removed)
      from Node.IH(2)[OF fb r] show ?thesis using t' by auto
    qed
  next
    case nf: False
    with Node.prems(1) have fn: "f \<noteq> Null" by (auto split: if_splits)
    show ?thesis
    proof (cases "partitionItem f = x")
      case px: True
      with nf fn Node.prems(2)
      have "front_sub f = Null" "back_sub f = Null" "t' = Node p (mergeSubtrees Null Null) b"
        "ds = [x]"
        by (auto simp: delete_temp_Removed)
      moreover from this fn px have "f = Node x Null Null" by (cases f) auto
      ultimately show ?thesis by (simp add: mergeSubtrees_def)
    next
      case False
      with nf fn Node.prems have ff: "found h x f"
        and "in_slot (\<lambda>f'. Node p f' b) (remove_bsp h x f) = Removed t' ds" by auto
      then obtain f' where r: "remove_bsp h x f = Removed f' ds" and t': "t' = Node p f' b"
        by (auto simp: in_slot_Removed)
      from Node.IH(1)[OF ff r] show ?thesis using t' by auto
    qed
  qed
qed

lemma remove_intact_items:
  "remove_bsp h x t = Removed t' ds \<Longrightarrow> set (allItems t') \<subseteq> set (allItems t)"
proof (cases "found h x t")
  case True
  assume "remove_bsp h x t = Removed t' ds"
  from remove_found_intact[OF True this]
  have "add_mset x (mset (allItems t')) = mset (allItems t)" by simp
  then show ?thesis by (metis set_mset_mset set_mset_add_mset_insert subset_insertI)
next
  case False
  assume "remove_bsp h x t = Removed t' ds"
  with remove_not_found[OF False] show ?thesis by simp
qed

lemma remove_intact_root:
  "t \<noteq> Null \<Longrightarrow> remove_bsp h x t = Removed t' ds \<Longrightarrow>
     t' \<noteq> Null \<and> partitionItem t' = partitionItem t"
  by (cases t) (auto simp: delete_temp_Removed in_slot_Removed split: if_splits)

lemma remove_intact_ok:
  "bsp_ok h t \<Longrightarrow> remove_bsp h x t = Removed t' ds \<Longrightarrow> bsp_ok h t'"
proof (induction t arbitrary: t')
  case Null
  then show ?case by simp
next
  case (Node p f b)
  have okf: "bsp_ok h f" and okb: "bsp_ok h b" using Node.prems(1) by simp_all
  show ?case
  proof (cases "flt0 (dotProduct h x p)")
    case True
    show ?thesis
    proof (cases "b \<noteq> Null \<and> partitionItem b \<noteq> x")
      case True
      with \<open>flt0 (dotProduct h x p)\<close> Node.prems(2)
      obtain b' where r: "remove_bsp h x b = Removed b' ds" and t': "t' = Node p f b'"
        by (auto simp: in_slot_Removed)
      from remove_intact_items[OF r] Node.IH(2)[OF okb r] show ?thesis
        using t' Node.prems(1) by auto
    next
      case False
      with True Node.prems show ?thesis
        by (auto simp: delete_temp_Removed mergeSubtrees_def split: if_splits)
    qed
  next
    case nf: False
    show ?thesis
    proof (cases "f \<noteq> Null \<and> partitionItem f \<noteq> x")
      case True
      with nf Node.prems(2)
      obtain f' where r: "remove_bsp h x f = Removed f' ds" and t': "t' = Node p f' b"
        by (auto simp: in_slot_Removed)
      from remove_intact_items[OF r] Node.IH(1)[OF okf r] show ?thesis
        using t' Node.prems(1) by auto
    next
      case False
      with nf Node.prems show ?thesis
        by (auto simp: delete_temp_Removed mergeSubtrees_def split: if_splits)
    qed
  qed
qed

text \<open>An object linked below the root of a classified tree is found by the descent.\<close>

lemma resident_found:
  "bsp_ok h t \<Longrightarrow> x \<in> set (allItems t) \<Longrightarrow> x \<noteq> partitionItem t \<Longrightarrow> found h x t"
proof (induction t)
  case Null
  then show ?case by simp
next
  case (Node p f b)
  from Node.prems(2,3) have "x \<in> set (allItems f) \<or> x \<in> set (allItems b)" by simp
  then show ?case
  proof
    assume xf: "x \<in> set (allItems f)"
    then have nf: "\<not> flt0 (dotProduct h x p)" using Node.prems(1) by auto
    have fn: "f \<noteq> Null" using xf by auto
    show ?thesis
    proof (cases "partitionItem f = x")
      case True
      then show ?thesis using nf fn by simp
    next
      case False
      from Node.IH(1)[OF _ xf] False Node.prems(1) show ?thesis using nf fn by simp
    qed
  next
    assume xb: "x \<in> set (allItems b)"
    then have lt: "flt0 (dotProduct h x p)" using Node.prems(1) by auto
    have bn: "b \<noteq> Null" using xb by auto
    show ?thesis
    proof (cases "partitionItem b = x")
      case True
      then show ?thesis using lt bn by simp
    next
      case False
      from Node.IH(2)[OF _ xb] False Node.prems(1) show ?thesis using lt bn by simp
    qed
  qed
qed

section \<open>The round trip\<close>

lemma remove_insert:
  "t \<noteq> Null \<Longrightarrow> x \<notin> set (allItems t) \<Longrightarrow> remove_bsp h x (insert_bsp h x t) = Removed t [x]"
proof (induction t)
  case Null
  then show ?case by simp
next
  case (Node p f b)
  show ?case
  proof (cases "flt0 (dotProduct h x p)")
    case True
    show ?thesis
    proof (cases "b = Null")
      case True
      with \<open>flt0 (dotProduct h x p)\<close> show ?thesis
        by (simp add: mergeSubtrees_def delete_temp_def)
    next
      case False
      then have "partitionItem (insert_bsp h x b) \<noteq> x"
        using Node.prems(2) by (cases b) auto
      moreover have "remove_bsp h x (insert_bsp h x b) = Removed b [x]"
        using Node.IH(2) False Node.prems(2) by simp
      ultimately show ?thesis
        using True False by (simp add: insert_not_Null in_slot_def)
    qed
  next
    case nf: False
    show ?thesis
    proof (cases "f = Null")
      case True
      with nf show ?thesis
        by (simp add: mergeSubtrees_def delete_temp_def)
    next
      case False
      then have "partitionItem (insert_bsp h x f) \<noteq> x"
        using Node.prems(2) by (cases f) auto
      moreover have "remove_bsp h x (insert_bsp h x f) = Removed f [x]"
        using Node.IH(1) False Node.prems(2) by simp
      ultimately show ?thesis
        using nf False by (simp add: insert_not_Null in_slot_def)
    qed
  qed
qed

lemma after_removal_Removed:
  "after_removal ds r = Removed t es \<longleftrightarrow> (\<exists>ds'. r = Removed t ds' \<and> es = ds @ ds')"
  by (cases r) (auto simp: after_removal_def)

lemma after_removal_twice:
  "after_removal ds (after_removal ds' r) = after_removal (ds @ ds') r"
  by (cases r) (simp_all add: after_removal_def)

lemma remove_all_append:
  "remove_all h xs t = Removed t' ds \<Longrightarrow>
     remove_all h (xs @ ys) t = after_removal ds (remove_all h ys t')"
proof (induction xs arbitrary: t ds)
  case Nil
  then show ?case by (cases "remove_all h ys t'") (simp_all add: after_removal_def)
next
  case (Cons x xs)
  from Cons.prems obtain t1 d1 d2 where r1: "remove_bsp h x t = Removed t1 d1"
    and r2: "remove_all h xs t1 = Removed t' d2" and ds: "ds = d1 @ d2"
    by (auto simp: after_removal_Removed split: remove_outcome.splits)
  from Cons.IH[OF r2] show ?case
    using r1 ds by (simp add: after_removal_twice)
qed

lemma leaf_removals_append:
  "remove_all h xs t = Removed t' ds \<Longrightarrow>
     leaf_removals h (xs @ ys) t = (leaf_removals h xs t \<and> leaf_removals h ys t')"
proof (induction xs arbitrary: t ds)
  case Nil
  then show ?case by simp
next
  case (Cons x xs)
  from Cons.prems obtain t1 d1 d2 where r1: "remove_bsp h x t = Removed t1 d1"
    and r2: "remove_all h xs t1 = Removed t' d2"
    by (auto simp: after_removal_Removed split: remove_outcome.splits)
  from Cons.IH[OF r2] show ?case
    using r1 by simp
qed

lemma leaf_after_insert: "t \<noteq> Null \<Longrightarrow> Node x Null Null \<in> set (subtrees (insert_bsp h x t))"
  by (induction t) auto

text \<open>Removing in the reverse of the insertion order undoes the insertions one by one.\<close>

lemma reverse_order_roundtrip:
  "t \<noteq> Null \<Longrightarrow> distinct xs \<Longrightarrow> set xs \<inter> set (allItems t) = {} \<Longrightarrow>
     remove_all h (rev xs) (insert_all h xs t) = Removed t (rev xs)
     \<and> leaf_removals h (rev xs) (insert_all h xs t)"
proof (induction xs arbitrary: t)
  case Nil
  show ?case by simp
next
  case (Cons x xs)
  let ?t = "insert_bsp h x t"
  have nn: "?t \<noteq> Null" using Cons.prems(1) by (rule insert_not_Null)
  have dj: "set xs \<inter> set (allItems ?t) = {}"
    using Cons.prems by (auto simp: set_allItems_insert)
  have ih: "remove_all h (rev xs) (insert_all h xs ?t) = Removed ?t (rev xs)"
    and il: "leaf_removals h (rev xs) (insert_all h xs ?t)"
    using Cons.IH[OF nn _ dj] Cons.prems(2) by simp_all
  have ri: "remove_bsp h x ?t = Removed t [x]"
    using Cons.prems by (intro remove_insert) auto
  show ?case
    using il ri leaf_after_insert[OF Cons.prems(1), of x h]
    by (simp add: remove_all_append[OF ih] leaf_removals_append[OF ih] after_removal_def)
qed

text \<open>A sequence of removals of childless nodes from a classified tree.\<close>

lemma leaf_order_removal:
  "bsp_ok h t \<Longrightarrow> t \<noteq> Null \<Longrightarrow> partitionItem t \<notin> set order \<Longrightarrow> leaf_removals h order t \<Longrightarrow>
     (\<exists>t'. remove_all h order t = Removed t' order
           \<and> mset order + mset (allItems t') = mset (allItems t)
           \<and> partitionItem t' = partitionItem t \<and> t' \<noteq> Null)"
proof (induction order arbitrary: t)
  case Nil
  then show ?case by simp
next
  case (Cons x xs)
  from Cons.prems(4) obtain t1 d1 where lf: "Node x Null Null \<in> set (subtrees t)"
    and r1: "remove_bsp h x t = Removed t1 d1" and lr: "leaf_removals h xs t1"
    by (auto split: remove_outcome.splits)
  have xp: "x \<noteq> partitionItem t" using Cons.prems(3) by auto
  have "found h x t"
    using Cons.prems(1) subtree_item[OF lf] xp by (rule resident_found)
  from remove_found_intact[OF this r1]
  have d1: "d1 = [x]" and ms: "add_mset x (mset (allItems t1)) = mset (allItems t)" by simp_all
  have ok1: "bsp_ok h t1" using Cons.prems(1) r1 by (rule remove_intact_ok)
  have pn: "t1 \<noteq> Null" "partitionItem t1 = partitionItem t"
    using remove_intact_root[OF Cons.prems(2) r1] by simp_all
  have "partitionItem t1 \<notin> set xs" using pn Cons.prems(3) by simp
  from Cons.IH[OF ok1 pn(1) this lr]
  obtain t' where ih: "remove_all h xs t1 = Removed t' xs"
    "mset xs + mset (allItems t') = mset (allItems t1)"
    "partitionItem t' = partitionItem t1" "t' \<noteq> Null" by blast
  have "remove_all h (x # xs) t = Removed t' (x # xs)"
    using r1 d1 ih(1) by (simp add: after_removal_def)
  moreover have "mset (x # xs) + mset (allItems t') = mset (allItems t)"
    using ih(2) ms by (simp add: add.assoc[symmetric])
  ultimately show ?case using ih(3,4) pn(2) by simp
qed

lemma single_item_tree:
  "t \<noteq> Null \<Longrightarrow> mset (allItems t) = {#r#} \<Longrightarrow> t = Node r Null Null"
proof (cases t)
  case Null
  assume "t \<noteq> Null" with Null show ?thesis by simp
next
  case (Node p f b)
  assume "mset (allItems t) = {#r#}"
  then have "p = r \<and> allItems f = [] \<and> allItems b = []" using Node
    by (metis add_mset_eq_single allItems.simps(2) mset.simps(2) mset_zero_iff append_is_Nil_conv)
  then show ?thesis using Node by (cases f; cases b) simp_all
qed

lemma query_root_only:
  "getCurrentFrontItems h camera checkFrustum (new_BSPTree rootItem) result =
     (if rootItem \<noteq> nullptr \<and> 0 < dot (vsub (h rootItem) (Position camera)) (Front camera)
         \<and> (\<not> checkFrustum \<or> isPointInFrustum (h rootItem) camera)
      then [rootItem] else [])"
  by (simp add: getCurrentFrontItems_def new_BSPTree_def gafi_Node)

text \<open>
  Claim C1 says that after the round trip the query returns the empty list for every camera.
  After inserting and removing one object the tree is the root alone, and the camera of the
  scene, which has the root anchor in front of it, gets the root anchor.
\<close>

theorem roundtrip_returns_root:
  "remove_all scene_heap [2] (insert_all scene_heap [2] (new_BSPTree 1))
     = Removed (new_BSPTree 1) [2]
   \<and> getCurrentFrontItems scene_heap scene_camera False
       (tree_of (remove_all scene_heap [2] (insert_all scene_heap [2] (new_BSPTree 1)))) []
       = [1]"
  by (simp add: getCurrentFrontItems_def new_BSPTree_def gafi_Node nullptr_def scene_heap_def
      scene_camera_def dotProduct_def normal_def to_float_def overflow_threshold_def dot_def
      vsub_def mergeSubtrees_def delete_temp_def after_removal_def)

text \<open>
  Claim C1, amended. Starting from a tree that holds only the root anchor, insert \<open>N\<close>
  distinct objects and remove all of them, in any order in which each object is the anchor
  of a childless node when it is removed; the reverse of the insertion order is such an
  order. Every call then leaves the tree intact, the tree is in the end the root alone, the
  objects deleted are exactly the removed ones, and the query returns the root anchor when
  it is in front of the camera (and in the frustum if the filter is on), and the empty list
  otherwise.
\<close>

theorem leaf_order_roundtrip:
  assumes "distinct items" and "rootItem \<notin> set items" and "mset order = mset items"
    and "leaf_removals h order (insert_all h items (new_BSPTree rootItem))"
  shows "remove_all h order (insert_all h items (new_BSPTree rootItem))
           = Removed (new_BSPTree rootItem) order
       \<and> getCurrentFrontItems h camera checkFrustum
           (tree_of (remove_all h order (insert_all h items (new_BSPTree rootItem)))) result
           = (if rootItem \<noteq> nullptr
                 \<and> 0 < dot (vsub (h rootItem) (Position camera)) (Front camera)
                 \<and> (\<not> checkFrustum \<or> isPointInFrustum (h rootItem) camera)
              then [rootItem] else [])
       \<and> leaf_removals h (rev items) (insert_all h items (new_BSPTree rootItem))
       \<and> remove_all h (rev items) (insert_all h items (new_BSPTree rootItem))
           = Removed (new_BSPTree rootItem) (rev items)"
proof -
  let ?T = "insert_all h items (new_BSPTree rootItem)"
  have nn: "new_BSPTree rootItem \<noteq> Null" by (simp add: new_BSPTree_def)
  have ok: "bsp_ok h ?T" by (rule bsp_ok_insert_all) (simp add: new_BSPTree_def)
  have ms: "mset (allItems ?T) = mset items + {#rootItem#}"
    using mset_allItems_insert_all[OF nn, of h items] by (simp add: new_BSPTree_def)
  have tn: "?T \<noteq> Null" using nn by (rule insert_all_not_Null)
  have pr: "partitionItem ?T = rootItem"
    using partitionItem_insert_all[OF nn, of h items] by (simp add: new_BSPTree_def)
  have "set order = set items" using assms(3) by (metis set_mset_mset)
  then have po: "partitionItem ?T \<notin> set order" using pr assms(2) by simp
  from leaf_order_removal[OF ok tn po assms(4)]
  obtain t' where r: "remove_all h order ?T = Removed t' order"
    "mset order + mset (allItems t') = mset (allItems ?T)" "t' \<noteq> Null" by blast
  from r(2) have "mset (allItems t') = {#rootItem#}"
    using ms assms(3) by simp
  from single_item_tree[OF r(3) this]
  have "t' = new_BSPTree rootItem" by (simp add: new_BSPTree_def)
  then have one: "remove_all h order ?T = Removed (new_BSPTree rootItem) order"
    using r(1) by simp
  have "set items \<inter> set (allItems (new_BSPTree rootItem)) = {}"
    using assms(2) by (simp add: new_BSPTree_def)
  from reverse_order_roundtrip[OF nn assms(1) this, of h]
  have rv: "remove_all h (rev items) ?T = Removed (new_BSPTree rootItem) (rev items)"
    "leaf_removals h (rev items) ?T" by simp_all
  show ?thesis
    unfolding one using rv by (simp add: query_root_only)
qed

theorem leaf_order_roundtrip_witness:
  "distinct [2, 3 :: nat] \<and> (1::nat) \<notin> set [2, 3] \<and> mset [2, 3 :: nat] = mset [2, 3]
   \<and> leaf_removals scene_heap [2, 3] (insert_all scene_heap [2, 3] (new_BSPTree 1))
   \<and> remove_all scene_heap [2, 3] (insert_all scene_heap [2, 3] (new_BSPTree 1))
        = Removed (new_BSPTree 1) [2, 3]
   \<and> getCurrentFrontItems scene_heap scene_camera True
        (tree_of (remove_all scene_heap [2, 3] (insert_all scene_heap [2, 3] (new_BSPTree 1))))
        [] = [1]
   \<and> getCurrentFrontItems scene_heap away_camera False
        (tree_of (remove_all scene_heap [2, 3] (insert_all scene_heap [2, 3] (new_BSPTree 1))))
        [] = []"
proof -
  have a: "distinct [2, 3 :: nat]" and b: "(1::nat) \<notin> set [2, 3]"
    and c: "mset [2, 3 :: nat] = mset [2, 3]" by simp_all
  have d: "leaf_removals scene_heap [2, 3] (insert_all scene_heap [2, 3] (new_BSPTree 1))"
    by (simp add: new_BSPTree_def scene_heap_def dotProduct_def normal_def to_float_def
        overflow_threshold_def mergeSubtrees_def delete_temp_def)
  note th = leaf_order_roundtrip[where h = scene_heap and items = "[2, 3]" and order = "[2, 3]"
      and rootItem = 1 and result = "[]", OF a b c d]
  have e: "isPointInFrustum (scene_heap 1) scene_camera"
    by (simp add: scene_heap_def scene_camera_def frustum_facing_minus_z)
  have f: "0 < dot (vsub (scene_heap 1) (Position scene_camera)) (Front scene_camera)"
    by (simp add: scene_heap_def scene_camera_def dot_def vsub_def)
  have g: "\<not> 0 < dot (vsub (scene_heap 1) (Position away_camera)) (Front away_camera)"
    by (simp add: scene_heap_def away_camera_def dot_def vsub_def)
  have n: "(1::nat) \<noteq> nullptr" by (simp add: nullptr_def)
  have r1: "remove_all scene_heap [2, 3] (insert_all scene_heap [2, 3] (new_BSPTree 1))
        = Removed (new_BSPTree 1) [2, 3]"
    using th[of scene_camera True] by (rule conjunct1)
  have r2: "getCurrentFrontItems scene_heap scene_camera True
        (tree_of (remove_all scene_heap [2, 3] (insert_all scene_heap [2, 3] (new_BSPTree 1))))
        [] = [1]"
    using th[of scene_camera True, THEN conjunct2, THEN conjunct1] e f n by simp
  have r3: "getCurrentFrontItems scene_heap away_camera False
        (tree_of (remove_all scene_heap [2, 3] (insert_all scene_heap [2, 3] (new_BSPTree 1))))
        [] = []"
    using th[of away_camera False, THEN conjunct2, THEN conjunct1] g by simp
  show ?thesis by (intro conjI a b c d r1 r2 r3)
qed

section \<open>Removal of a node that has children\<close>

text \<open>
  Claim C6 says that \<open>remove\<close> destroys exactly the node of the object, that every other
  object stays in the tree and reachable, also when the node had both children, and that
  the object goes back to the caller. The code does not do this. With the root (address 1)
  at the origin, object 2 at \<open>(0,0,-5)\<close> and object 4 at \<open>(0,0,-3)\<close> inserted in this order,
  \<open>remove\<close> of object 2 links the node of 4 into the root's back slot, deletes object 2, and
  then deletes object 4 and its node through the destructor of the unlinked node: the slot
  is left pointing to freed memory. With object 7 at \<open>(0,0,-7)\<close> inserted as well, the node
  of 2 has both children, and the destructor deletes object 7 twice.
\<close>

theorem remove_frees_relinked_subtrees:
  "insert_all deep_heap [2, 4] (new_BSPTree 1) = Node 1 Null (Node 2 (Node 4 Null Null) Null)
   \<and> remove_bsp deep_heap 2 (insert_all deep_heap [2, 4] (new_BSPTree 1)) = Dangling [2, 4]
   \<and> insert_all deep_heap [2, 4, 7] (new_BSPTree 1)
        = Node 1 Null (Node 2 (Node 4 Null Null) (Node 7 Null Null))
   \<and> remove_bsp deep_heap 2 (insert_all deep_heap [2, 4, 7] (new_BSPTree 1))
        = DoubleDelete [2, 4, 7] 7"
  by (simp add: deep_heap_def new_BSPTree_def dotProduct_def normal_def to_float_def
      overflow_threshold_def mergeSubtrees_def temp_view_def delete_temp_def)

text \<open>
  Claim C8 says that a distinct object at the position of the removed one is never
  removed, and that \<open>remove\<close> without a match changes nothing. The second part holds
  (\<open>remove_not_found\<close>, \<open>remove_not_resident\<close>), and the comparison is on addresses. The
  first part fails: with objects 2 and 5 at the same position, inserted in this order,
  object 5 is in the node below the node of 2, and \<open>remove\<close> of object 2 deletes object 5
  and frees its node, through the destructor of the unlinked node.
\<close>

theorem remove_deletes_twin:
  "twin_heap 5 = twin_heap 2
   \<and> insert_all twin_heap [2, 5] (new_BSPTree 1) = Node 1 Null (Node 2 (Node 5 Null Null) Null)
   \<and> remove_bsp twin_heap 2 (insert_all twin_heap [2, 5] (new_BSPTree 1)) = Dangling [2, 5]"
  by (simp add: twin_heap_def new_BSPTree_def dotProduct_def normal_def to_float_def
      overflow_threshold_def mergeSubtrees_def temp_view_def delete_temp_def)

text \<open>
  In general: when the descent finds the object, the call leaves the tree intact exactly
  when the node found has no children.
\<close>

lemma remove_found_outcome:
  "found h x t \<Longrightarrow>
     (\<exists>t' ds. remove_bsp h x t = Removed t' ds) \<longrightarrow> Node x Null Null \<in> set (subtrees t)"
  using remove_found_intact by blast

end
